theory Spec2Isabelle
  imports Main
begin

section \<open>The connection hub of 10-websockets/main.go\<close>

text \<open>
  The hub keeps the set of connected clients in a Go map keyed by the connection pointer
  and is driven by three channels. One goroutine, \<open>run\<close>, receives from the channels
  and is the only code that touches the map. The model is sequential: the state of the
  hub is a record of the struct's fields, every call that \<open>run\<close> makes on a connection
  (\<open>WriteMessage\<close>, \<open>Close\<close>) is appended to a log, and what the environment decides
  (the order in which \<open>range\<close> visits the map, whether a write returns an error) is an
  explicit argument. Output written with \<open>fmt.Printf\<close> is not part of the model.
\<close>

subsection \<open>Data\<close>

text \<open>A \<open>*websocket.Conn\<close> is compared by pointer identity only; a \<open>[]byte\<close> is a list of bytes.\<close>

type_synonym conn = nat
type_synonym message = string

text \<open>
  A Go channel: its capacity and the values buffered in it. \<open>make(chan T)\<close> without a
  size makes a channel of capacity 0 (unbuffered).
\<close>

record 'a chan =
  cap :: nat
  buf :: "'a list"

definition make_chan :: "nat \<Rightarrow> 'a chan" where
  "make_chan n = \<lparr>cap = n, buf = []\<rparr>"

text \<open>
  A send statement \<open>ch <- v\<close>, seen from the sender: with a receiver waiting on an empty
  buffer the value is handed over; otherwise it is buffered if the buffer has room; otherwise
  the sending goroutine blocks until a receiver arrives.
\<close>

datatype 'a send_result = Handed_over | Buffered "'a chan" | Blocks

definition chan_send :: "bool \<Rightarrow> 'a chan \<Rightarrow> 'a \<Rightarrow> 'a send_result" where
  "chan_send receiver_waiting ch v =
     (if receiver_waiting \<and> buf ch = [] then Handed_over
      else if length (buf ch) < cap ch then Buffered (ch\<lparr>buf := buf ch @ [v]\<rparr>)
      else Blocks)"

text \<open>The struct \<open>Hub\<close> (lines 18-23) and its constructor \<open>newHub\<close> (lines 25-32).\<close>

record hub =
  clients :: "conn \<rightharpoonup> bool"
  broadcast :: "message chan"
  register :: "conn chan"
  unregister :: "conn chan"

definition newHub :: hub where
  "newHub = \<lparr>clients = Map.empty,
             broadcast = make_chan 0,
             register = make_chan 0,
             unregister = make_chan 0\<rparr>"

text \<open>
  What one iteration of the \<open>select\<close> in \<open>run\<close> receives: a connection from
  \<open>h.register\<close>, a connection from \<open>h.unregister\<close>, or a message from \<open>h.broadcast\<close>.
\<close>

datatype event = Register conn | Unregister conn | Broadcast message

text \<open>The calls \<open>run\<close> makes on connections, in the order it makes them.\<close>

datatype call = WriteMessage conn message | Close conn

text \<open>
  The environment of one iteration: the order in which \<open>range h.clients\<close> produces the
  keys, and whether \<open>client.WriteMessage\<close> returns a non-nil error.
\<close>

record env =
  range_order :: "conn list"
  write_err :: "conn \<Rightarrow> message \<Rightarrow> bool"

subsection \<open>The event loop\<close>

text \<open>
  The loop of lines 50-56 over the keys \<open>ks\<close> that \<open>range\<close> is going to produce. Go does
  not produce a key whose entry was deleted before the iteration reached it, hence the
  lookup. The body writes the message and, on an error, closes the connection and deletes
  its entry from the map that is being ranged over.
\<close>

fun range_clients ::
  "(conn \<Rightarrow> message \<Rightarrow> bool) \<Rightarrow> message \<Rightarrow> conn list \<Rightarrow> hub \<times> call list \<Rightarrow> hub \<times> call list"
where
  "range_clients werr m [] s = s"
| "range_clients werr m (c # cs) (h, log) =
     (case clients h c of
        None \<Rightarrow> range_clients werr m cs (h, log)
      | Some _ \<Rightarrow>
          if werr c m
          then range_clients werr m cs
                 (h\<lparr>clients := (clients h)(c := None)\<rparr>, log @ [WriteMessage c m, Close c])
          else range_clients werr m cs (h, log @ [WriteMessage c m]))"

text \<open>One iteration of \<open>for { select { ... } }\<close> (lines 35-58), on the event received.\<close>

fun run_step :: "env \<Rightarrow> hub \<times> call list \<Rightarrow> event \<Rightarrow> hub \<times> call list" where
  "run_step e (h, log) (Register client) =
     (h\<lparr>clients := (clients h)(client \<mapsto> True)\<rparr>, log)"
| "run_step e (h, log) (Unregister client) =
     (case clients h client of
        Some _ \<Rightarrow> (h\<lparr>clients := (clients h)(client := None)\<rparr>, log @ [Close client])
      | None \<Rightarrow> (h, log))"
| "run_step e (h, log) (Broadcast m) =
     range_clients (write_err e) m (range_order e) (h, log)"

text \<open>
  The loop never exits; \<open>run\<close> is its effect on a finite sequence of received events,
  each with the environment of its iteration.
\<close>

fun run :: "hub \<times> call list \<Rightarrow> (env \<times> event) list \<Rightarrow> hub \<times> call list" where
  "run s [] = s"
| "run s ((e, ev) # evs) = run (run_step e s ev) evs"

text \<open>
  \<open>range\<close> over a map produces every key once, in an order the language leaves open:
  the order given to an iteration is valid for a hub when it enumerates the map's keys.
\<close>

definition valid_order :: "conn list \<Rightarrow> hub \<Rightarrow> bool" where
  "valid_order ks h = (distinct ks \<and> set ks = dom (clients h))"

subsection \<open>The reader of a connection\<close>




section \<open>Auxiliary facts\<close>

subsection \<open>The loop over the clients\<close>

lemma range_clients_append:
  "range_clients werr m (xs @ ys) s = range_clients werr m ys (range_clients werr m xs s)"
proof (induction xs arbitrary: s)
  case Nil
  show ?case by simp
next
  case (Cons c cs)
  obtain h log where s: "s = (h, log)" by (cases s)
  show ?case unfolding s by (simp add: Cons.IH split: option.splits)
qed

text \<open>Whatever keys are visited, the entries left are those whose write did not fail.\<close>

lemma range_clients_clients:
  "clients (fst (range_clients werr m ks s)) =
     (\<lambda>c. if c \<in> set ks \<and> werr c m then None else clients (fst s) c)"
proof (induction ks arbitrary: s)
  case Nil
  show ?case by simp
next
  case (Cons c cs)
  obtain h log where s: "s = (h, log)" by (cases s)
  show ?case unfolding s by (auto simp: Cons.IH fun_eq_iff split: option.splits)
qed

lemma range_clients_chans:
  "broadcast (fst (range_clients werr m ks s)) = broadcast (fst s) \<and>
   register (fst (range_clients werr m ks s)) = register (fst s) \<and>
   unregister (fst (range_clients werr m ks s)) = unregister (fst s)"
proof (induction ks arbitrary: s)
  case Nil
  show ?case by simp
next
  case (Cons c cs)
  obtain h log where s: "s = (h, log)" by (cases s)
  show ?case unfolding s by (simp add: Cons.IH split: option.splits)
qed

text \<open>On distinct keys that are all in the map, every key visited is written to.\<close>

lemma range_clients_log:
  "distinct ks \<Longrightarrow> set ks \<subseteq> dom (clients h) \<Longrightarrow>
   snd (range_clients werr m ks (h, log)) =
     log @ concat (map (\<lambda>c. if werr c m then [WriteMessage c m, Close c]
                             else [WriteMessage c m]) ks)"
proof (induction ks arbitrary: h log)
  case Nil
  show ?case by simp
next
  case (Cons c cs)
  from Cons.prems obtain b where b: "clients h c = Some b" by auto
  from Cons.prems have d: "distinct cs" and nin: "c \<notin> set cs"
    and sub: "set cs \<subseteq> dom (clients h)"
    by auto
  show ?case
  proof (cases "werr c m")
    case True
    from sub nin have "set cs \<subseteq> dom (clients (h\<lparr>clients := (clients h)(c := None)\<rparr>))"
      by auto
    from Cons.IH[OF d this] True b show ?thesis by simp
  next
    case False
    from Cons.IH[OF d sub] False b show ?thesis by simp
  qed
qed

lemma range_clients_valid:
  assumes "valid_order ks h"
  shows "range_clients werr m ks (h, log) =
     (h\<lparr>clients := (\<lambda>c. if werr c m then None else clients h c)\<rparr>,
      log @ concat (map (\<lambda>c. if werr c m then [WriteMessage c m, Close c]
                              else [WriteMessage c m]) ks))"
proof -
  let ?r = "range_clients werr m ks (h, log)"
  from assms have d: "distinct ks" and s: "set ks = dom (clients h)"
    by (simp_all add: valid_order_def)
  have "clients (fst ?r) = (\<lambda>c. if werr c m then None else clients h c)"
    using s by (auto simp: range_clients_clients fun_eq_iff)
  moreover have "broadcast (fst ?r) = broadcast h" "register (fst ?r) = register h"
    "unregister (fst ?r) = unregister h"
    using range_clients_chans[of werr m ks "(h, log)"] by simp_all
  ultimately have "fst ?r = h\<lparr>clients := (\<lambda>c. if werr c m then None else clients h c)\<rparr>"
    by (cases "fst ?r", cases h) simp
  moreover have "snd ?r = log @ concat (map (\<lambda>c. if werr c m then [WriteMessage c m, Close c]
                                                   else [WriteMessage c m]) ks)"
    using d s by (simp add: range_clients_log)
  ultimately show ?thesis by (simp add: prod_eq_iff)
qed

lemma count_list_concat_map_write:
  "count_list (concat (map (\<lambda>c. if werr c m then [WriteMessage c m, Close c]
                                  else [WriteMessage c m]) ks)) (WriteMessage c' m')
     = (if m' = m then count_list ks c' else 0)"
  by (induction ks) auto

lemma count_list_distinct:
  "distinct ks \<Longrightarrow> count_list ks c = (if c \<in> set ks then 1 else 0)"
  by (induction ks) auto



subsection \<open>Steps and runs\<close>

lemma run_append: "run s (xs @ ys) = run (run s xs) ys"
  by (induction s xs rule: run.induct) simp_all

lemma run_snoc: "run s (xs @ [(e, ev)]) = run_step e (run s xs) ev"
  by (simp add: run_append)

lemma run_step_member:
  "p \<in> dom (clients (fst (run_step e s ev))) \<longleftrightarrow>
     (case ev of
        Register q \<Rightarrow> q = p \<or> p \<in> dom (clients (fst s))
      | Unregister q \<Rightarrow> q \<noteq> p \<and> p \<in> dom (clients (fst s))
      | Broadcast m \<Rightarrow>
          p \<in> dom (clients (fst s)) \<and> \<not> (p \<in> set (range_order e) \<and> write_err e p m))"
  by (cases s; cases ev) (auto simp: range_clients_clients split: option.splits if_splits)

lemma run_step_chans:
  "broadcast (fst (run_step e s ev)) = broadcast (fst s) \<and>
   register (fst (run_step e s ev)) = register (fst s) \<and>
   unregister (fst (run_step e s ev)) = unregister (fst s)"
  by (cases s; cases ev) (simp_all add: range_clients_chans split: option.splits)

lemma run_chans:
  "broadcast (fst (run s evs)) = broadcast (fst s) \<and>
   register (fst (run s evs)) = register (fst s) \<and>
   unregister (fst (run s evs)) = unregister (fst s)"
  by (induction s evs rule: run.induct) (simp_all add: run_step_chans)






subsection \<open>The reader and the hub together\<close>



section \<open>Properties of the hub\<close>

subsection \<open>Unregistration\<close>

text \<open>
  C5. Unregistration is idempotent: processing \<open>Unregister p\<close> twice in a row leaves the
  hub (and the calls made) exactly as processing it once does, and unregistering a peer
  that is not in the map changes nothing.
\<close>

theorem unregister_idempotent:
  "run_step e' (run_step e s (Unregister p)) (Unregister p) = run_step e s (Unregister p)
   \<and> (clients (fst s) p = None \<longrightarrow> run_step e s (Unregister p) = s)"
  by (cases s) (auto split: option.splits)

theorem unregister_idempotent_witness:
  "clients (fst (newHub, [])) 7 = None \<and>
   run_step \<lparr>range_order = [], write_err = (\<lambda>c m. False)\<rparr> (newHub, []) (Unregister 7)
     = (newHub, []) \<and>
   run_step \<lparr>range_order = [], write_err = (\<lambda>c m. False)\<rparr>
     (run_step \<lparr>range_order = [], write_err = (\<lambda>c m. False)\<rparr>
        (newHub\<lparr>clients := [1 \<mapsto> True]\<rparr>, []) (Unregister 1)) (Unregister 1)
     = (newHub, [Close 1])"
  using unregister_idempotent
    [of "\<lparr>range_order = [], write_err = (\<lambda>c m. False)\<rparr>"
        "\<lparr>range_order = [], write_err = (\<lambda>c m. False)\<rparr>" "(newHub, [])" 7]
    unregister_idempotent
    [of "\<lparr>range_order = [], write_err = (\<lambda>c m. False)\<rparr>"
        "\<lparr>range_order = [], write_err = (\<lambda>c m. False)\<rparr>"
        "(newHub\<lparr>clients := [1 \<mapsto> True]\<rparr>, [])" 1]
  by (simp add: newHub_def)

subsection \<open>Registration\<close>

text \<open>
  C4. For every sequence of \<open>Register\<close> and \<open>Unregister\<close> events, a peer \<open>p\<close> is in the
  map afterwards if and only if the last event of the sequence that concerns \<open>p\<close> is
  \<open>Register p\<close> (when no event concerns \<open>p\<close>, its membership is what it was before).
\<close>

theorem registered_iff_last_op_register:
  assumes "\<forall>x\<in>set evs. \<forall>m. snd x \<noteq> Broadcast m"
  shows "p \<in> dom (clients (fst (run (h, log) evs))) \<longleftrightarrow>
     (let ops = filter (\<lambda>ev. ev = Register p \<or> ev = Unregister p) (map snd evs)
      in if ops = [] then p \<in> dom (clients h) else last ops = Register p)"
  using assms
proof (induction evs rule: rev_induct)
  case Nil
  show ?case by simp
next
  case (snoc x evs)
  obtain e ev where x: "x = (e, ev)" by (cases x)
  from snoc.prems have nb: "\<forall>m. ev \<noteq> Broadcast m" and pre: "\<forall>x\<in>set evs. \<forall>m. snd x \<noteq> Broadcast m"
    by (auto simp: x)
  note IH = snoc.IH[OF pre]
  show ?case
  proof (cases ev)
    case (Register q)
    then show ?thesis using IH by (auto simp: x run_snoc run_step_member Let_def)
  next
    case (Unregister q)
    then show ?thesis using IH by (auto simp: x run_snoc run_step_member Let_def)
  next
    case (Broadcast m)
    with nb show ?thesis by simp
  qed
qed

theorem registered_iff_last_op_register_witness:
  "1 \<in> dom (clients (fst (run (newHub, [])
      [(\<lparr>range_order = [], write_err = (\<lambda>c m. False)\<rparr>, Register 1),
       (\<lparr>range_order = [], write_err = (\<lambda>c m. False)\<rparr>, Unregister 1),
       (\<lparr>range_order = [], write_err = (\<lambda>c m. False)\<rparr>, Register 2),
       (\<lparr>range_order = [], write_err = (\<lambda>c m. False)\<rparr>, Register 1),
       (\<lparr>range_order = [], write_err = (\<lambda>c m. False)\<rparr>, Unregister 2)]))) \<and>
   2 \<notin> dom (clients (fst (run (newHub, [])
      [(\<lparr>range_order = [], write_err = (\<lambda>c m. False)\<rparr>, Register 1),
       (\<lparr>range_order = [], write_err = (\<lambda>c m. False)\<rparr>, Unregister 1),
       (\<lparr>range_order = [], write_err = (\<lambda>c m. False)\<rparr>, Register 2),
       (\<lparr>range_order = [], write_err = (\<lambda>c m. False)\<rparr>, Register 1),
       (\<lparr>range_order = [], write_err = (\<lambda>c m. False)\<rparr>, Unregister 2)])))"
proof -
  let ?e = "\<lparr>range_order = [], write_err = (\<lambda>c m. False)\<rparr>"
  let ?evs = "[(?e, Register 1), (?e, Unregister 1), (?e, Register 2), (?e, Register 1), (?e, Unregister 2)]"
  have nb: "\<forall>x\<in>set ?evs. \<forall>m. snd x \<noteq> Broadcast m" by simp
  from registered_iff_last_op_register[OF nb, of 1 newHub "[]"]
       registered_iff_last_op_register[OF nb, of 2 newHub "[]"]
  show ?thesis by (simp add: newHub_def)
qed

subsection \<open>Closing connections\<close>




subsection \<open>Broadcast\<close>

text \<open>
  C3. Processing \<open>Broadcast m\<close> calls \<open>WriteMessage\<close> with \<open>m\<close> exactly once on every
  connection in the map, the one the message came from included (the event does not even
  name it), and writes nothing else.
\<close>

theorem broadcast_reaches_every_client_once:
  assumes "valid_order (range_order e) h"
    and "run_step e (h, log) (Broadcast m) = (h', log')"
  shows "count_list log' (WriteMessage c m') =
     count_list log (WriteMessage c m') + (if c \<in> dom (clients h) \<and> m' = m then 1 else 0)"
proof -
  from assms(1) have d: "distinct (range_order e)" and s: "set (range_order e) = dom (clients h)"
    by (simp_all add: valid_order_def)
  from assms(2) have "log' = log @ concat (map (\<lambda>c. if write_err e c m then [WriteMessage c m, Close c] else [WriteMessage c m]) (range_order e))"
    by (simp add: range_clients_valid[OF assms(1)])
  then show ?thesis
    using s by (simp add: count_list_concat_map_write count_list_distinct[OF d])
qed

theorem broadcast_reaches_every_client_once_witness:
  "valid_order [3, 1, 2] (newHub\<lparr>clients := [1 \<mapsto> True, 2 \<mapsto> True, 3 \<mapsto> True]\<rparr>) \<and>
   run_step \<lparr>range_order = [3, 1, 2], write_err = (\<lambda>c m. False)\<rparr>
     (newHub\<lparr>clients := [1 \<mapsto> True, 2 \<mapsto> True, 3 \<mapsto> True]\<rparr>, []) (Broadcast ''hello'')
     = (newHub\<lparr>clients := [1 \<mapsto> True, 2 \<mapsto> True, 3 \<mapsto> True]\<rparr>,
        [WriteMessage 3 ''hello'', WriteMessage 1 ''hello'', WriteMessage 2 ''hello'']) \<and>
   count_list [WriteMessage 3 ''hello'', WriteMessage 1 ''hello'', WriteMessage 2 ''hello'']
     (WriteMessage 1 ''hello'') = 1"
proof -
  let ?h = "newHub\<lparr>clients := [1 \<mapsto> True, 2 \<mapsto> True, 3 \<mapsto> True]\<rparr>"
  let ?e = "\<lparr>range_order = [3, 1, 2], write_err = (\<lambda>c m. False)\<rparr>"
  have v: "valid_order (range_order ?e) ?h"
    by (auto simp: valid_order_def)
  have r: "run_step ?e (?h, []) (Broadcast ''hello'')
     = (?h, [WriteMessage 3 ''hello'', WriteMessage 1 ''hello'', WriteMessage 2 ''hello''])"
    by simp
  from broadcast_reaches_every_client_once[OF v r, of 1 "''hello''"] v r
  show ?thesis by simp
qed

text \<open>
  C2. A failing write does not end the broadcast. When the write to \<open>b\<close> fails, the
  peers visited before \<open>b\<close> have been written to, the peers visited after \<open>b\<close> are
  written to after \<open>b\<close> has been closed, \<open>b\<close> is no longer in the map afterwards, and
  every peer whose write succeeded keeps its entry.
\<close>

theorem broadcast_failure_isolated:
  assumes "valid_order (range_order e) h"
    and "range_order e = xs @ b # ys"
    and "write_err e b m"
    and "run_step e (h, log) (Broadcast m) = (h', log')"
  shows "\<exists>pre post. log' = log @ pre @ [WriteMessage b m, Close b] @ post
           \<and> (\<forall>c\<in>set xs. WriteMessage c m \<in> set pre)
           \<and> (\<forall>c\<in>set ys. WriteMessage c m \<in> set post)
           \<and> clients h' b = None
           \<and> (\<forall>c. \<not> write_err e c m \<longrightarrow> clients h' c = clients h c)"
proof -
  let ?f = "\<lambda>c. if write_err e c m then [WriteMessage c m, Close c] else [WriteMessage c m]"
  let ?pre = "concat (map ?f xs)" and ?post = "concat (map ?f ys)"
  from assms(4) have r: "(h', log') =
      (h\<lparr>clients := (\<lambda>c. if write_err e c m then None else clients h c)\<rparr>,
       log @ concat (map ?f (range_order e)))"
    by (simp add: range_clients_valid[OF assms(1)])
  have "log' = log @ ?pre @ [WriteMessage b m, Close b] @ ?post"
    using r assms(2,3) by simp
  moreover have "\<forall>c\<in>set xs. WriteMessage c m \<in> set ?pre" by auto
  moreover have "\<forall>c\<in>set ys. WriteMessage c m \<in> set ?post" by auto
  moreover have "clients h' b = None" using r assms(3) by simp
  moreover have "\<forall>c. \<not> write_err e c m \<longrightarrow> clients h' c = clients h c" using r by simp
  ultimately show ?thesis by blast
qed

theorem broadcast_failure_isolated_witness:
  "valid_order [1, 2, 3] (newHub\<lparr>clients := [1 \<mapsto> True, 2 \<mapsto> True, 3 \<mapsto> True]\<rparr>) \<and>
   run_step \<lparr>range_order = [1, 2, 3], write_err = (\<lambda>c m. c = 2)\<rparr>
     (newHub\<lparr>clients := [1 \<mapsto> True, 2 \<mapsto> True, 3 \<mapsto> True]\<rparr>, []) (Broadcast ''m'')
     = (newHub\<lparr>clients := [1 \<mapsto> True, 3 \<mapsto> True]\<rparr>,
        [WriteMessage 1 ''m'', WriteMessage 2 ''m'', Close 2, WriteMessage 3 ''m'']) \<and>
   (\<exists>pre post. [WriteMessage 1 ''m'', WriteMessage 2 ''m'', Close 2, WriteMessage 3 ''m'']
        = pre @ [WriteMessage 2 ''m'', Close 2] @ post
      \<and> WriteMessage 1 ''m'' \<in> set pre \<and> WriteMessage 3 ''m'' \<in> set post)"
proof -
  let ?h = "newHub\<lparr>clients := [1 \<mapsto> True, 2 \<mapsto> True, 3 \<mapsto> True]\<rparr>"
  let ?e = "\<lparr>range_order = [1, 2, 3], write_err = (\<lambda>c m. c = 2)\<rparr>"
  let ?log = "[WriteMessage 1 ''m'', WriteMessage 2 ''m'', Close 2, WriteMessage 3 ''m'']"
  have v: "valid_order (range_order ?e) ?h"
    by (auto simp: valid_order_def)
  have o: "range_order ?e = [1] @ 2 # [3]" by simp
  have w: "write_err ?e 2 ''m''" by simp
  have r: "run_step ?e (?h, []) (Broadcast ''m'') = (newHub\<lparr>clients := [1 \<mapsto> True, 3 \<mapsto> True]\<rparr>, ?log)"
    by (auto simp: newHub_def fun_eq_iff)
  from broadcast_failure_isolated[OF v o w r] v r
  show ?thesis by simp blast
qed

text \<open>
  C10. Each event changes only the entries it concerns: \<open>Register p\<close> adds \<open>p\<close> and
  leaves every other entry alone, \<open>Unregister p\<close> removes \<open>p\<close> and leaves every other
  entry alone, and \<open>Broadcast m\<close> removes exactly the peers whose write failed.
\<close>

theorem run_step_frame:
  "(\<forall>q. q \<noteq> p \<longrightarrow> clients (fst (run_step e (h, log) (Register p))) q = clients h q)
   \<and> clients (fst (run_step e (h, log) (Register p))) p = Some True
   \<and> (\<forall>q. q \<noteq> p \<longrightarrow> clients (fst (run_step e (h, log) (Unregister p))) q = clients h q)
   \<and> clients (fst (run_step e (h, log) (Unregister p))) p = None
   \<and> (valid_order (range_order e) h \<longrightarrow>
        (\<forall>q. clients (fst (run_step e (h, log) (Broadcast m))) q =
               (if write_err e q m then None else clients h q)))"
proof -
  have "valid_order (range_order e) h \<longrightarrow>
        (\<forall>q. clients (fst (run_step e (h, log) (Broadcast m))) q =
               (if write_err e q m then None else clients h q))"
    by (simp add: range_clients_valid)
  moreover have "\<forall>q. q \<noteq> p \<longrightarrow> clients (fst (run_step e (h, log) (Unregister p))) q = clients h q"
    by (simp split: option.splits)
  moreover have "clients (fst (run_step e (h, log) (Unregister p))) p = None"
    by (simp split: option.splits)
  ultimately show ?thesis by simp
qed

theorem run_step_frame_witness:
  "valid_order [2, 1] (newHub\<lparr>clients := [1 \<mapsto> True, 2 \<mapsto> True]\<rparr>) \<and>
   dom (clients (fst (run_step \<lparr>range_order = [2, 1], write_err = (\<lambda>c m. c = 1)\<rparr>
     (newHub\<lparr>clients := [1 \<mapsto> True, 2 \<mapsto> True]\<rparr>, []) (Broadcast ''m'')))) = {2} \<and>
   dom (clients (fst (run_step \<lparr>range_order = [2, 1], write_err = (\<lambda>c m. c = 1)\<rparr>
     (newHub\<lparr>clients := [1 \<mapsto> True, 2 \<mapsto> True]\<rparr>, []) (Register 5)))) = {1, 2, 5} \<and>
   dom (clients (fst (run_step \<lparr>range_order = [2, 1], write_err = (\<lambda>c m. c = 1)\<rparr>
     (newHub\<lparr>clients := [1 \<mapsto> True, 2 \<mapsto> True]\<rparr>, []) (Unregister 2)))) = {1}"
proof -
  let ?h = "newHub\<lparr>clients := [1 \<mapsto> True, 2 \<mapsto> True]\<rparr>"
  let ?e = "\<lparr>range_order = [2, 1], write_err = (\<lambda>c m. c = 1)\<rparr>"
  have v: "valid_order (range_order ?e) ?h"
    by (auto simp: valid_order_def)
  from run_step_frame[of 5 ?e ?h "[]" "''m''"] run_step_frame[of 2 ?e ?h "[]" "''m''"] v
  show ?thesis by (auto simp: dom_def split: if_splits)
qed

text \<open>
  C1, as the code has it. When the write to a peer \<open>p\<close> fails during a broadcast, \<open>run\<close>
  closes \<open>p\<close> and deletes its entry at once, inside the loop over the map itself: when
  the loop goes on to the peers after \<open>p\<close>, the entry of \<open>p\<close> is already gone. No copy
  of the map is taken and nothing is sent on any of the hub's channels.
\<close>

theorem broadcast_failure_deletes_in_place:
  assumes "valid_order (range_order e) h"
    and "range_order e = xs @ p # ys"
    and "write_err e p m"
  shows "\<exists>h1 log1.
           range_clients (write_err e) m (xs @ [p]) (h, log) = (h1, log1 @ [WriteMessage p m, Close p])
         \<and> clients h1 p = None
         \<and> run_step e (h, log) (Broadcast m) =
             range_clients (write_err e) m ys (h1, log1 @ [WriteMessage p m, Close p])
         \<and> register (fst (run_step e (h, log) (Broadcast m))) = register h
         \<and> unregister (fst (run_step e (h, log) (Broadcast m))) = unregister h
         \<and> broadcast (fst (run_step e (h, log) (Broadcast m))) = broadcast h"
proof -
  let ?w = "write_err e"
  let ?f = "\<lambda>c. if ?w c m then [WriteMessage c m, Close c] else [WriteMessage c m]"
  let ?s1 = "range_clients ?w m (xs @ [p]) (h, log)"
  from assms(1,2) have d: "distinct (xs @ [p])" and s: "set (xs @ [p]) \<subseteq> dom (clients h)"
    by (auto simp: valid_order_def)
  have "snd ?s1 = (log @ concat (map ?f xs)) @ [WriteMessage p m, Close p]"
    using range_clients_log[OF d s, of ?w m log] assms(3) by simp
  then have 1: "?s1 = (fst ?s1, (log @ concat (map ?f xs)) @ [WriteMessage p m, Close p])"
    by (simp add: prod_eq_iff)
  have 2: "clients (fst ?s1) p = None"
    using assms(3) by (simp add: range_clients_clients)
  have "run_step e (h, log) (Broadcast m) = range_clients ?w m ys ?s1"
    using range_clients_append[of ?w m "xs @ [p]" ys "(h, log)"] assms(2) by simp
  with 1 have 3: "run_step e (h, log) (Broadcast m) =
      range_clients ?w m ys (fst ?s1, (log @ concat (map ?f xs)) @ [WriteMessage p m, Close p])"
    by simp
  have 4: "register (fst (run_step e (h, log) (Broadcast m))) = register h"
    "unregister (fst (run_step e (h, log) (Broadcast m))) = unregister h"
    "broadcast (fst (run_step e (h, log) (Broadcast m))) = broadcast h"
    using range_clients_chans[of ?w m "range_order e" "(h, log)"] by simp_all
  from 1 2 3 4 show ?thesis by blast
qed

theorem broadcast_failure_deletes_in_place_witness:
  "valid_order [1, 2, 3] (newHub\<lparr>clients := [1 \<mapsto> True, 2 \<mapsto> True, 3 \<mapsto> True]\<rparr>) \<and>
   (\<exists>h1 log1.
      range_clients (\<lambda>c m. c = 2) ''m'' [1, 2]
        (newHub\<lparr>clients := [1 \<mapsto> True, 2 \<mapsto> True, 3 \<mapsto> True]\<rparr>, [])
        = (h1, log1 @ [WriteMessage 2 ''m'', Close 2])
      \<and> clients h1 2 = None
      \<and> run_step \<lparr>range_order = [1, 2, 3], write_err = (\<lambda>c m. c = 2)\<rparr>
          (newHub\<lparr>clients := [1 \<mapsto> True, 2 \<mapsto> True, 3 \<mapsto> True]\<rparr>, []) (Broadcast ''m'')
        = range_clients (\<lambda>c m. c = 2) ''m'' [3] (h1, log1 @ [WriteMessage 2 ''m'', Close 2]))"
proof -
  let ?h = "newHub\<lparr>clients := [1 \<mapsto> True, 2 \<mapsto> True, 3 \<mapsto> True]\<rparr>"
  let ?e = "\<lparr>range_order = [1, 2, 3], write_err = (\<lambda>c m. c = 2)\<rparr>"
  have v: "valid_order (range_order ?e) ?h"
    by (auto simp: valid_order_def)
  have o: "range_order ?e = [1] @ 2 # [3]" by simp
  have w: "write_err ?e 2 ''m''" by simp
  from broadcast_failure_deletes_in_place[OF v o w, of "[]"] obtain h1 log1 where
    "range_clients (write_err ?e) ''m'' ([1] @ [2]) (?h, []) = (h1, log1 @ [WriteMessage 2 ''m'', Close 2])"
    "clients h1 2 = None"
    "run_step ?e (?h, []) (Broadcast ''m'') =
       range_clients (write_err ?e) ''m'' [3] (h1, log1 @ [WriteMessage 2 ''m'', Close 2])"
    by blast
  then have "range_clients (\<lambda>c m. c = 2) ''m'' [1, 2] (?h, []) = (h1, log1 @ [WriteMessage 2 ''m'', Close 2])
      \<and> clients h1 2 = None
      \<and> run_step ?e (?h, []) (Broadcast ''m'') =
         range_clients (\<lambda>c m. c = 2) ''m'' [3] (h1, log1 @ [WriteMessage 2 ''m'', Close 2])"
    by simp
  then have "\<exists>h1 log1. range_clients (\<lambda>c m. c = 2) ''m'' [1, 2] (?h, []) = (h1, log1 @ [WriteMessage 2 ''m'', Close 2])
      \<and> clients h1 2 = None
      \<and> run_step ?e (?h, []) (Broadcast ''m'') =
         range_clients (\<lambda>c m. c = 2) ''m'' [3] (h1, log1 @ [WriteMessage 2 ''m'', Close 2])"
    by blast
  with v show ?thesis by simp
qed

text \<open>
  The peer is not kept until a later \<open>Unregister\<close> event: with peers 1, 2 and 3
  registered and the write to 2 failing, 2 has left the map and has been closed when
  the \<open>Broadcast\<close> event is done, and the channel \<open>unregister\<close> holds nothing.
\<close>

theorem broadcast_failure_deferred_counterexample:
  "clients (newHub\<lparr>clients := [1 \<mapsto> True, 2 \<mapsto> True, 3 \<mapsto> True]\<rparr>) 2 = Some True \<and>
   clients (fst (run_step \<lparr>range_order = [1, 2, 3], write_err = (\<lambda>c m. c = 2)\<rparr>
     (newHub\<lparr>clients := [1 \<mapsto> True, 2 \<mapsto> True, 3 \<mapsto> True]\<rparr>, []) (Broadcast ''m''))) 2 = None \<and>
   snd (run_step \<lparr>range_order = [1, 2, 3], write_err = (\<lambda>c m. c = 2)\<rparr>
     (newHub\<lparr>clients := [1 \<mapsto> True, 2 \<mapsto> True, 3 \<mapsto> True]\<rparr>, []) (Broadcast ''m''))
     = [WriteMessage 1 ''m'', WriteMessage 2 ''m'', Close 2, WriteMessage 3 ''m''] \<and>
   buf (unregister (fst (run_step \<lparr>range_order = [1, 2, 3], write_err = (\<lambda>c m. c = 2)\<rparr>
     (newHub\<lparr>clients := [1 \<mapsto> True, 2 \<mapsto> True, 3 \<mapsto> True]\<rparr>, []) (Broadcast ''m'')))) = []"
  by (simp add: newHub_def make_chan_def)

subsection \<open>Registering a peer that is registered\<close>

text \<open>
  C7, as the code has it. A \<open>Register\<close> event for a peer that is already in the map is
  not a fault: the entry is overwritten with \<open>true\<close>, the members of the map and the
  calls made stay as they are, and the loop goes on with the next event.
\<close>

theorem register_again_overwrites:
  assumes "p \<in> dom (clients h)"
  shows "dom (clients (fst (run_step e (h, log) (Register p)))) = dom (clients h)
     \<and> clients (fst (run_step e (h, log) (Register p))) p = Some True
     \<and> snd (run_step e (h, log) (Register p)) = log
     \<and> (clients h p = Some True \<longrightarrow> run_step e (h, log) (Register p) = (h, log))
     \<and> run (h, log) ((e, Register p) # evs) = run (h\<lparr>clients := (clients h)(p \<mapsto> True)\<rparr>, log) evs"
proof -
  have "clients h p = Some True \<longrightarrow> (clients h)(p \<mapsto> True) = clients h"
    by (auto simp: fun_eq_iff)
  then have "clients h p = Some True \<longrightarrow> run_step e (h, log) (Register p) = (h, log)"
    by simp
  with assms show ?thesis by auto
qed

theorem register_again_overwrites_witness:
  "1 \<in> dom (clients (newHub\<lparr>clients := [1 \<mapsto> True]\<rparr>)) \<and>
   run_step \<lparr>range_order = [], write_err = (\<lambda>c m. False)\<rparr>
     (newHub\<lparr>clients := [1 \<mapsto> True]\<rparr>, []) (Register 1) = (newHub\<lparr>clients := [1 \<mapsto> True]\<rparr>, [])"
  using register_again_overwrites[of 1 "newHub\<lparr>clients := [1 \<mapsto> True]\<rparr>"
      "\<lparr>range_order = [], write_err = (\<lambda>c m. False)\<rparr>" "[]" "[]"]
  by simp

text \<open>
  Registering peer 1 twice leaves the hub as registering it once does, and a broadcast
  received afterwards is still delivered: the loop has not stopped.
\<close>

theorem register_again_fatal_counterexample:
  "1 \<in> dom (clients (fst (run (newHub, [])
      [(\<lparr>range_order = [], write_err = (\<lambda>c m. False)\<rparr>, Register 1)]))) \<and>
   run (newHub, [])
      [(\<lparr>range_order = [], write_err = (\<lambda>c m. False)\<rparr>, Register 1),
       (\<lparr>range_order = [], write_err = (\<lambda>c m. False)\<rparr>, Register 1)]
     = run (newHub, [])
      [(\<lparr>range_order = [], write_err = (\<lambda>c m. False)\<rparr>, Register 1)] \<and>
   run (newHub, [])
      [(\<lparr>range_order = [], write_err = (\<lambda>c m. False)\<rparr>, Register 1),
       (\<lparr>range_order = [], write_err = (\<lambda>c m. False)\<rparr>, Register 1),
       (\<lparr>range_order = [1], write_err = (\<lambda>c m. False)\<rparr>, Broadcast ''still running'')]
     = (newHub\<lparr>clients := [1 \<mapsto> True]\<rparr>, [WriteMessage 1 ''still running''])"
  by (simp add: newHub_def)

subsection \<open>The channels\<close>

text \<open>
  C8, as the code has it. The hub receives its events on three separate channels, each
  of capacity 0, and they stay so: no event is ever queued. A send on any of them is
  handed over when \<open>run\<close> is waiting to receive and blocks the sender otherwise; it is
  never buffered.
\<close>

theorem mailbox_unbuffered:
  "cap (register newHub) = 0 \<and> cap (unregister newHub) = 0 \<and> cap (broadcast newHub) = 0
   \<and> register (fst (run (newHub, []) evs)) = make_chan 0
   \<and> unregister (fst (run (newHub, []) evs)) = make_chan 0
   \<and> broadcast (fst (run (newHub, []) evs)) = make_chan 0
   \<and> chan_send w (register (fst (run (newHub, []) evs))) c = (if w then Handed_over else Blocks)
   \<and> chan_send w (unregister (fst (run (newHub, []) evs))) c = (if w then Handed_over else Blocks)
   \<and> chan_send w (broadcast (fst (run (newHub, []) evs))) m = (if w then Handed_over else Blocks)"
  using run_chans[of "(newHub, [])" evs]
  by (simp add: newHub_def make_chan_def chan_send_def)

theorem mailbox_unbuffered_witness:
  "chan_send True (register (fst (run (newHub, [])
      [(\<lparr>range_order = [], write_err = (\<lambda>c m. False)\<rparr>, Register 1)]))) 2 = Handed_over \<and>
   chan_send False (register (fst (run (newHub, [])
      [(\<lparr>range_order = [], write_err = (\<lambda>c m. False)\<rparr>, Register 1)]))) 2 = Blocks"
  using mailbox_unbuffered
    [of "[(\<lparr>range_order = [], write_err = (\<lambda>c m. False)\<rparr>, Register 1)]" True 2]
    mailbox_unbuffered
    [of "[(\<lparr>range_order = [], write_err = (\<lambda>c m. False)\<rparr>, Register 1)]" False 2]
  by (simp add: newHub_def make_chan_def chan_send_def)

text \<open>
  The channels are not an unbounded queue: on a fresh hub, with \<open>run\<close> not waiting to
  receive, a send on any of the three channels cannot be taken and blocks.
\<close>

theorem mailbox_unbounded_counterexample:
  "cap (register newHub) = 0 \<and>
   chan_send False (register newHub) 1 = Blocks \<and>
   chan_send False (unregister newHub) 1 = Blocks \<and>
   chan_send False (broadcast newHub) ''m'' = Blocks"
  by (simp add: newHub_def make_chan_def chan_send_def)

end
